theory Spec2Isabelle
  imports Complex_Main "HOL-Library.Multiset"
begin

section \<open>Python strings\<close>

text \<open>
  A Python \<open>str\<close> is a sequence of Unicode code points. A code point is modelled as a
  natural number and a string as a list of them; \<open>str_of\<close> reads an ASCII literal.
\<close>

type_synonym codepoint = nat
type_synonym str = "codepoint list"

definition str_of :: "string \<Rightarrow> str" where
  "str_of cs = map of_char cs"

text \<open>
  \<open>str.upper()\<close> maps every character by itself (the full case mapping has no
  context rule for upper-casing); one character may become several. The ASCII part is
  fixed: \<open>a..z\<close> go to \<open>A..Z\<close>, every other ASCII character is kept. The mapping of the
  characters from code point 128 on is the Unicode table of the interpreter, which is
  not part of the repository: it is the parameter \<open>U\<close>.
\<close>

definition upper_char :: "(codepoint \<Rightarrow> str) \<Rightarrow> codepoint \<Rightarrow> str" where
  "upper_char U c =
     (if 97 \<le> c \<and> c \<le> 122 then [c - 32] else if c < 128 then [c] else U c)"

definition py_upper :: "(codepoint \<Rightarrow> str) \<Rightarrow> str \<Rightarrow> str" where
  "py_upper U s = concat (map (upper_char U) s)"

text \<open>
  The entries of the interpreter's table that matter to a filter on A, C, G, T. Beyond
  ASCII exactly four characters have an upper-case form that holds one of the four
  letters: U+1E97 becomes \<open>T\<close> and U+0308, U+1E9A becomes \<open>A\<close> and U+02BE, and the
  ligatures U+FB05 and U+FB06 become \<open>ST\<close>. \<open>special_upper\<close> holds these four entries
  and leaves every other character as it is; the interpreter maps some of those to other
  characters, none of which is A, C, G or T.
\<close>

definition special_upper :: "codepoint \<Rightarrow> str" where
  "special_upper c =
     (if c = 7831 then [84, 776]
      else if c = 7834 then [65, 702]
      else if c = 64261 \<or> c = 64262 then str_of ''ST''
      else [c])"

text \<open>
  \<open>str.isspace()\<close> on one character: the characters \<open>str.strip()\<close> removes when it is
  called without an argument.
\<close>

definition py_isspace :: "codepoint \<Rightarrow> bool" where
  "py_isspace c \<longleftrightarrow>
     (9 \<le> c \<and> c \<le> 13) \<or> (28 \<le> c \<and> c \<le> 32) \<or> c = 133 \<or> c = 160 \<or> c = 5760 \<or>
     (8192 \<le> c \<and> c \<le> 8202) \<or> c = 8232 \<or> c = 8233 \<or> c = 8239 \<or> c = 8287 \<or> c = 12288"

definition py_lstrip :: "str \<Rightarrow> str" where
  "py_lstrip s = dropWhile py_isspace s"

definition py_rstrip :: "str \<Rightarrow> str" where
  "py_rstrip s = rev (dropWhile py_isspace (rev s))"

definition py_strip :: "str \<Rightarrow> str" where
  "py_strip s = py_rstrip (py_lstrip s)"

definition startswith :: "str \<Rightarrow> str \<Rightarrow> bool" where
  "startswith s p \<longleftrightarrow> take (length p) s = p"

text \<open>\<open>s[lo:hi]\<close> with Python's treatment of negative and of too large bounds.\<close>

definition py_slice :: "'a list \<Rightarrow> int \<Rightarrow> int \<Rightarrow> 'a list" where
  "py_slice s lo hi =
     (let n = int (length s);
          l = (if lo < 0 then max (lo + n) 0 else min lo n);
          h = (if hi < 0 then max (hi + n) 0 else min hi n)
      in take (nat (h - l)) (drop (nat l) s))"

text \<open>\<open>range(n)\<close>: the integers from 0 up to \<open>n - 1\<close>, none when \<open>n \<le> 0\<close>.\<close>

definition py_range :: "int \<Rightarrow> int list" where
  "py_range n = map int [0..<nat n]"

section \<open>Reading the input file\<close>

text \<open>
  The file system is a map from paths to the decoded text of the file; \<open>None\<close> stands for
  every failure of \<open>open\<close> or of reading (the source catches \<open>Exception\<close>, prints a
  message and returns the empty string).

  A file opened in text mode translates \<open>\r\n\<close> and a lone \<open>\r\<close> to \<open>\n\<close>; iterating it
  yields the lines, each with its terminating \<open>\n\<close> (the last line may have none).
\<close>

fun universal_newlines :: "str \<Rightarrow> str" where
  "universal_newlines [] = []"
| "universal_newlines [c] = (if c = 13 then [10] else [c])"
| "universal_newlines (c # d # cs) =
     (if c = 13 \<and> d = 10 then 10 # universal_newlines cs
      else if c = 13 then 10 # universal_newlines (d # cs)
      else c # universal_newlines (d # cs))"

fun split_lines :: "str \<Rightarrow> str \<Rightarrow> str list" where
  "split_lines cur [] = (if cur = [] then [] else [cur])"
| "split_lines cur (c # cs) =
     (if c = 10 then (cur @ [c]) # split_lines [] cs else split_lines (cur @ [c]) cs)"

definition file_lines :: "str \<Rightarrow> str list" where
  "file_lines text = split_lines [] (universal_newlines text)"

text \<open>
  The list comprehension \<open>[line.strip() for line in f if line.strip()]\<close>: the condition
  is tested on each line first, the kept line is then stripped.
\<close>

fun stripped_lines :: "str list \<Rightarrow> str list" where
  "stripped_lines [] = []"
| "stripped_lines (line # f) =
     (if py_strip line \<noteq> [] then py_strip line # stripped_lines f else stripped_lines f)"

definition join_lines :: "str list \<Rightarrow> str" where
  "join_lines ls = concat ls"

definition read_sequence_from_file :: "(string \<Rightarrow> str option) \<Rightarrow> string \<Rightarrow> str" where
  "read_sequence_from_file fs path =
     (case fs path of
        None \<Rightarrow> []
      | Some text \<Rightarrow>
          (let lines = stripped_lines (file_lines text) in
           if lines \<noteq> [] \<and> startswith (hd lines) (str_of ''>'')
           then join_lines (filter (\<lambda>line. \<not> startswith line (str_of ''>'')) lines)
           else join_lines lines))"

section \<open>The normalizer\<close>

text \<open>\<open>re.sub("[^ACGT]", "", seq)\<close> deletes every character that is not one of the four.\<close>

definition is_base :: "codepoint \<Rightarrow> bool" where
  "is_base c \<longleftrightarrow> c \<in> set (str_of ''ACGT'')"

definition clean_seq :: "(codepoint \<Rightarrow> str) \<Rightarrow> str \<Rightarrow> str" where
  "clean_seq U seq = (let seq = py_upper U seq in filter is_base seq)"

section \<open>Statistics\<close>

datatype py_error = ZeroDivisionError

text \<open>
  True division raises on a zero divisor. The source computes in floating point; the
  model computes the same expression in exact rational arithmetic.
\<close>

definition py_truediv :: "rat \<Rightarrow> rat \<Rightarrow> py_error + rat" where
  "py_truediv a b = (if b = 0 then Inl ZeroDivisionError else Inr (a / b))"

definition str_count :: "str \<Rightarrow> codepoint \<Rightarrow> nat" where
  "str_count s c = length (filter (\<lambda>x. x = c) s)"

definition gc_content :: "str \<Rightarrow> py_error + rat" where
  "gc_content seq =
     (if seq = [] then Inr 0
      else (let g = str_count seq (of_char CHR ''G'');
                c = str_count seq (of_char CHR ''C'')
            in py_truediv (100 * of_nat (g + c)) (of_nat (length seq))))"

definition at_content :: "str \<Rightarrow> py_error + rat" where
  "at_content seq =
     (if seq = [] then Inr 0
      else (let a = str_count seq (of_char CHR ''A'');
                t = str_count seq (of_char CHR ''T'')
            in py_truediv (100 * of_nat (a + t)) (of_nat (length seq))))"

text \<open>
  \<open>RC_MAP = str.maketrans("ACGT", "TGCA")\<close> is a table from characters to characters;
  \<open>translate\<close> leaves a character without an entry as it is. \<open>[::-1]\<close> reverses.
\<close>

definition RC_MAP :: "(codepoint \<times> codepoint) list" where
  "RC_MAP = zip (str_of ''ACGT'') (str_of ''TGCA'')"

definition translate :: "(codepoint \<times> codepoint) list \<Rightarrow> str \<Rightarrow> str" where
  "translate tab s = map (\<lambda>c. case map_of tab c of None \<Rightarrow> c | Some d \<Rightarrow> d) s"

definition reverse_complement :: "str \<Rightarrow> str" where
  "reverse_complement seq = rev (translate RC_MAP seq)"

section \<open>Counting k-mers\<close>

text \<open>
  A \<open>Counter\<close> is a dictionary, which keeps its keys in the order of their insertion:
  an association list with one entry per key. \<open>counts[key] += 1\<close> reads 0 for a missing
  key and appends the new entry; an existing entry is updated where it stands.
\<close>

type_synonym 'k counter = "('k \<times> int) list"

fun counter_incr :: "'k counter \<Rightarrow> 'k \<Rightarrow> 'k counter" where
  "counter_incr [] key = [(key, 0 + 1)]"
| "counter_incr ((k', v) # rest) key =
     (if k' = key then (k', v + 1) # rest else (k', v) # counter_incr rest key)"

definition kmer_step :: "str \<Rightarrow> int \<Rightarrow> int \<Rightarrow> str counter \<Rightarrow> str counter" where
  "kmer_step seq k i counts =
     (let kmer = py_slice seq i (i + k) in
      if int (length kmer) = k then counter_incr counts kmer else counts)"

definition kmer_counts :: "str \<Rightarrow> int \<Rightarrow> str counter" where
  "kmer_counts seq k = fold (kmer_step seq k) (py_range (int (length seq) - k + 1)) []"

text \<open>
  \<open>Counter.most_common(n)\<close> is \<open>heapq.nlargest(n, items, key = count)\<close>, which returns
  what \<open>sorted(items, key = count, reverse = True)[:n]\<close> does for \<open>n \<ge> 0\<close> and the empty
  list for a negative \<open>n\<close>. The sort is stable: entries with equal counts keep the order
  they have in the dictionary.
\<close>

fun insert_desc :: "'k \<times> int \<Rightarrow> 'k counter \<Rightarrow> 'k counter" where
  "insert_desc x [] = [x]"
| "insert_desc x (y # ys) = (if snd y \<le> snd x then x # y # ys else y # insert_desc x ys)"

fun sorted_desc :: "'k counter \<Rightarrow> 'k counter" where
  "sorted_desc [] = []"
| "sorted_desc (x # xs) = insert_desc x (sorted_desc xs)"

definition most_common :: "int \<Rightarrow> 'k counter \<Rightarrow> 'k counter" where
  "most_common n counts = take (nat n) (sorted_desc counts)"

text \<open>
  Lines 71 to 76 of \<open>summary\<close>: the entries printed under the heading
  \<open>Top topn k-mers\<close>, in the order printed; nothing is printed for an empty table.
\<close>

definition summary_top :: "str \<Rightarrow> int \<Rightarrow> int \<Rightarrow> str counter" where
  "summary_top seq_clean k topn =
     (let counts = kmer_counts seq_clean k in
      if counts \<noteq> [] then most_common topn counts else [])"

section \<open>Notions used to state the properties\<close>

text \<open>The complement of a base as the specification words it: A and T swap, C and G swap.\<close>

definition base_complement :: "codepoint \<Rightarrow> codepoint" where
  "base_complement c =
     (if c = of_char CHR ''A'' then of_char CHR ''T''
      else if c = of_char CHR ''T'' then of_char CHR ''A''
      else if c = of_char CHR ''C'' then of_char CHR ''G''
      else if c = of_char CHR ''G'' then of_char CHR ''C''
      else c)"

text \<open>
  The k-mers that pass the guard \<open>len(kmer) == k\<close> of the loop of \<open>kmer_counts\<close>, in the
  order in which the loop meets them: the scan. \<open>count_all\<close> increments a counter once
  for every element of a list, from left to right.
\<close>

definition guarded_kmer :: "str \<Rightarrow> int \<Rightarrow> int \<Rightarrow> str list" where
  "guarded_kmer seq k i =
     (let kmer = py_slice seq i (i + k) in if int (length kmer) = k then [kmer] else [])"

definition scanned_kmers :: "str \<Rightarrow> int \<Rightarrow> str list" where
  "scanned_kmers seq k = concat (map (guarded_kmer seq k) (py_range (int (length seq) - k + 1)))"

definition count_all :: "'k list \<Rightarrow> 'k counter \<Rightarrow> 'k counter" where
  "count_all ws t = fold (\<lambda>w c. counter_incr c w) ws t"

text \<open>
  The position at which an element first appears in a list, and the order in which
  \<open>most_common\<close> is claimed to list entries: a higher count first, and among equal counts
  the key with the earlier position \<open>pos\<close> first.
\<close>

definition first_seen_at :: "'k list \<Rightarrow> 'k \<Rightarrow> nat" where
  "first_seen_at ws w = length (takeWhile (\<lambda>x. x \<noteq> w) ws)"

definition ranks_before :: "('k \<Rightarrow> nat) \<Rightarrow> 'k \<times> int \<Rightarrow> 'k \<times> int \<Rightarrow> bool" where
  "ranks_before pos a b \<longleftrightarrow> snd b < snd a \<or> (snd a = snd b \<and> pos (fst a) < pos (fst b))"

text \<open>
  The input reader as the specification words it, over the lines of the file: strip
  every line with \<open>strp\<close>, drop the lines that are then empty; when the first retained
  line starts with \<open>>\<close>, discard every retained line that starts with \<open>>\<close> and
  concatenate the rest, otherwise concatenate all retained lines.
\<close>

definition reader_spec :: "(str \<Rightarrow> str) \<Rightarrow> str list \<Rightarrow> str" where
  "reader_spec strp lines =
     (let retained = filter (\<lambda>l. l \<noteq> []) (map strp lines) in
      case retained of
        [] \<Rightarrow> []
      | first # _ \<Rightarrow>
          if startswith first (str_of ''>'')
          then concat (filter (\<lambda>l. \<not> startswith l (str_of ''>'')) retained)
          else concat retained)"

section \<open>Properties of the normalizer and of the statistics\<close>

lemma is_base_iff: "is_base c \<longleftrightarrow> c = 65 \<or> c = 67 \<or> c = 71 \<or> c = 84"
  by (auto simp add: is_base_def str_of_def)

lemma upper_char_base: "is_base c \<Longrightarrow> upper_char U c = [c]"
  by (auto simp add: is_base_iff upper_char_def)

lemma py_upper_bases: "\<forall>c \<in> set s. is_base c \<Longrightarrow> py_upper U s = s"
  by (induction s) (simp_all add: py_upper_def upper_char_base)

lemma set_clean_seq: "c \<in> set (clean_seq U s) \<Longrightarrow> is_base c"
  by (simp add: clean_seq_def)

lemma clean_seq_bases: "\<forall>c \<in> set s. is_base c \<Longrightarrow> clean_seq U s = s"
  by (simp add: clean_seq_def py_upper_bases)

lemma translate_RC: "translate RC_MAP s = map base_complement s"
  by (simp add: translate_def RC_MAP_def str_of_def base_complement_def)

lemma base_complement_twice: "base_complement (base_complement c) = c"
  by (simp add: base_complement_def)

lemma reverse_complement_twice: "reverse_complement (reverse_complement s) = s"
  by (simp add: reverse_complement_def translate_RC rev_map base_complement_twice comp_def)

lemma count_bases:
  "\<forall>c \<in> set s. is_base c \<Longrightarrow>
     str_count s 71 + str_count s 67 + (str_count s 65 + str_count s 84) = length s"
  by (induction s) (auto simp add: str_count_def is_base_iff)

lemma percent_sum:
  fixes x y n :: rat
  assumes "n \<noteq> 0" and "x + y = n"
  shows "100 * x / n + 100 * y / n = 100"
proof -
  have "100 * x / n + 100 * y / n = 100 * (x + y) / n"
    by (simp only: add_divide_distrib distrib_left)
  also have "\<dots> = 100"
    using assms by simp
  finally show ?thesis .
qed

text \<open>
  Claim C2. On every string over A, C, G, T the reverse complement is an involution:
  applied twice it gives the string back. It complements every base (A and T swap, C and
  G swap) and reverses the order, and its result is again a string over A, C, G, T.
\<close>

theorem reverse_complement_involution:
  assumes "\<forall>c \<in> set s. is_base c"
  shows "reverse_complement (reverse_complement s) = s \<and>
         reverse_complement s = rev (map base_complement s) \<and>
         (\<forall>c \<in> set (reverse_complement s). is_base c)"
proof -
  have "is_base (base_complement c)" if "is_base c" for c
    using that by (auto simp add: is_base_iff base_complement_def)
  with assms have "\<forall>c \<in> set (reverse_complement s). is_base c"
    by (simp add: reverse_complement_def translate_RC)
  then show ?thesis
    by (simp add: reverse_complement_twice) (simp add: reverse_complement_def translate_RC)
qed

theorem reverse_complement_involution_witness:
  "list_all is_base (str_of ''AACGT'') \<and>
   reverse_complement (str_of ''AACGT'') = str_of ''ACGTT'' \<and>
   reverse_complement (str_of ''ACGTT'') = str_of ''AACGT''"
  using reverse_complement_involution [of "str_of ''AACGT''"]
  by (simp add: str_of_def is_base_iff reverse_complement_def translate_def RC_MAP_def)

text \<open>
  Claim C3. For every non-empty string over A, C, G, T both percentages are computed
  (no error) and, in exact rational arithmetic, they add up to 100.
\<close>

theorem gc_at_sum:
  assumes "s \<noteq> []" and "\<forall>c \<in> set s. is_base c"
  shows "\<exists>g a. gc_content s = Inr g \<and> at_content s = Inr a \<and> g + a = 100"
proof -
  let ?n = "of_nat (length s) :: rat"
  let ?gc = "of_nat (str_count s 71 + str_count s 67) :: rat"
  let ?at = "of_nat (str_count s 65 + str_count s 84) :: rat"
  from assms(1) have n: "?n \<noteq> 0" by simp
  have g: "gc_content s = Inr (100 * ?gc / ?n)"
    using assms(1) n by (simp add: gc_content_def py_truediv_def)
  have a: "at_content s = Inr (100 * ?at / ?n)"
    using assms(1) n by (simp add: at_content_def py_truediv_def)
  have "?gc + ?at = of_nat (str_count s 71 + str_count s 67 + (str_count s 65 + str_count s 84))"
    by (simp only: of_nat_add)
  also have "\<dots> = ?n"
    by (simp only: count_bases [OF assms(2)])
  finally have "100 * ?gc / ?n + 100 * ?at / ?n = 100"
    using n by (rule percent_sum [rotated])
  with g a show ?thesis by blast
qed

theorem gc_at_sum_witness:
  "str_of ''ACGTA'' \<noteq> [] \<and> list_all is_base (str_of ''ACGTA'') \<and>
   gc_content (str_of ''ACGTA'') = Inr 40 \<and> at_content (str_of ''ACGTA'') = Inr 60"
  using gc_at_sum [of "str_of ''ACGTA''"]
  by (simp add: str_of_def is_base_iff gc_content_def at_content_def py_truediv_def str_count_def)

text \<open>
  Claim C8. On the empty sequence both percentages are 0, and on no sequence at all
  does either function raise a division by zero: the test for the empty sequence comes
  before the division by the length.
\<close>

theorem zero_length_guard:
  "gc_content [] = Inr 0 \<and> at_content [] = Inr 0 \<and>
   gc_content s \<noteq> Inl ZeroDivisionError \<and> at_content s \<noteq> Inl ZeroDivisionError"
  by (simp add: gc_content_def at_content_def py_truediv_def)

theorem zero_length_guard_witness:
  "gc_content [] = Inr 0 \<and> at_content [] = Inr 0 \<and> gc_content (str_of ''GA'') = Inr 50"
  using zero_length_guard [of "str_of ''GA''"]
  by (simp add: str_of_def gc_content_def py_truediv_def str_count_def)

section \<open>The scan of \<open>kmer_counts\<close>\<close>

lemma kmer_step_guarded: "kmer_step seq k i = count_all (guarded_kmer seq k i)"
  by (rule ext) (simp add: kmer_step_def guarded_kmer_def count_all_def Let_def)

lemma count_all_append: "count_all (xs @ ys) t = count_all ys (count_all xs t)"
  by (simp add: count_all_def)

lemma fold_kmer_step:
  "fold (kmer_step seq k) js t = count_all (concat (map (guarded_kmer seq k) js)) t"
proof (induction js arbitrary: t)
  case Nil
  show ?case by (simp add: count_all_def)
next
  case (Cons j js)
  have "fold (kmer_step seq k) (j # js) t = fold (kmer_step seq k) js (kmer_step seq k j t)"
    by simp
  also have "\<dots> = count_all (concat (map (guarded_kmer seq k) js)) (kmer_step seq k j t)"
    by (rule Cons.IH)
  also have "kmer_step seq k j t = count_all (guarded_kmer seq k j) t"
    by (simp only: kmer_step_guarded)
  finally show ?case
    by (simp add: count_all_append)
qed

lemma kmer_counts_scan: "kmer_counts seq k = count_all (scanned_kmers seq k) []"
  by (simp add: kmer_counts_def scanned_kmers_def fold_kmer_step)

lemma py_slice_window:
  assumes "0 \<le> k"
  shows "py_slice s (int i) (int i + k) = take (nat k) (drop i s)"
proof (cases "i \<le> length s")
  case True
  with assms have "nat (min (int i + k) (int (length s)) - min (int i) (int (length s))) =
      min (nat k) (length (drop i s))"
    by simp
  moreover from True have "nat (min (int i) (int (length s))) = i"
    by simp
  moreover have "take (min (nat k) (length (drop i s))) (drop i s) = take (nat k) (drop i s)"
    by (simp add: min_def)
  ultimately show ?thesis
    using assms by (simp add: py_slice_def Let_def del: length_drop)
next
  case False
  with assms show ?thesis
    by (simp add: py_slice_def Let_def min_absorb2)
qed

lemma guarded_kmer_neg: "k < 0 \<Longrightarrow> guarded_kmer s k i = []"
  by (simp add: guarded_kmer_def Let_def)

lemma guarded_kmer_window:
  assumes "0 \<le> k" and "i + nat k \<le> length s"
  shows "guarded_kmer s k (int i) = [take (nat k) (drop i s)]"
  using assms by (simp add: guarded_kmer_def py_slice_window)

lemma scanned_kmers_neg: "k < 0 \<Longrightarrow> scanned_kmers s k = []"
  by (simp add: scanned_kmers_def guarded_kmer_neg)

lemma range_bound: "0 \<le> k \<Longrightarrow> nat (int n - k + 1) = Suc n - nat k"
  by linarith

lemma scanned_kmers_windows:
  assumes "0 \<le> k"
  shows "scanned_kmers s k = map (\<lambda>i. take (nat k) (drop i s)) [0..<Suc (length s) - nat k]"
proof -
  let ?js = "[0..<Suc (length s) - nat k]"
  have "scanned_kmers s k = concat (map (guarded_kmer s k \<circ> int) ?js)"
    using assms by (simp add: scanned_kmers_def py_range_def range_bound)
  also have "map (guarded_kmer s k \<circ> int) ?js = map (\<lambda>i. [take (nat k) (drop i s)]) ?js"
    using assms by (intro map_cong refl) (simp add: guarded_kmer_window)
  also have "concat (map (\<lambda>i. [take (nat k) (drop i s)]) ?js) = map (\<lambda>i. take (nat k) (drop i s)) ?js"
    by (induction ?js) simp_all
  finally show ?thesis .
qed

lemma length_scanned_kmers:
  "int (length (scanned_kmers s k)) = (if k < 0 then 0 else max 0 (int (length s) - k + 1))"
proof (cases "k < 0")
  case True
  then show ?thesis by (simp add: scanned_kmers_neg)
next
  case False
  then have "int (Suc (length s) - nat k) = max 0 (int (length s) - k + 1)"
    by linarith
  with False show ?thesis
    by (simp add: scanned_kmers_windows)
qed

lemma sum_counter_incr: "sum_list (map snd (counter_incr t w)) = sum_list (map snd t) + 1"
  by (induction t w rule: counter_incr.induct) simp_all

lemma sum_count_all: "sum_list (map snd (count_all ws t)) = sum_list (map snd t) + int (length ws)"
  by (induction ws arbitrary: t) (simp_all add: count_all_def sum_counter_incr)

text \<open>
  Claim C1, as amended. The counts of the table returned by \<open>kmer_counts\<close> add up to
  \<open>max(0, len(s) - k + 1)\<close> for every \<open>k \<ge> 0\<close>, and to 0 for every negative \<open>k\<close>.
\<close>

theorem kmer_counts_total:
  "sum_list (map snd (kmer_counts s k)) = (if k < 0 then 0 else max 0 (int (length s) - k + 1))"
  by (simp only: kmer_counts_scan sum_count_all length_scanned_kmers list.map sum_list.Nil add_0)

theorem kmer_counts_total_witness:
  "sum_list (map snd (kmer_counts (str_of ''ACGTACGT'') 3)) = 6 \<and>
   sum_list (map snd (kmer_counts (str_of ''ACG'') 0)) = 4 \<and>
   sum_list (map snd (kmer_counts (str_of ''A'') (- 1))) = 0"
  using kmer_counts_total [of "str_of ''ACGTACGT''" 3] kmer_counts_total [of "str_of ''ACG''" 0]
    kmer_counts_total [of "str_of ''A''" "- 1"]
  by (simp add: str_of_def)

text \<open>
  Claim C1 as stated fails for a negative \<open>k\<close>: on the sequence \<open>A\<close> with \<open>k = -1\<close> the
  table is empty, so its counts add up to 0, while \<open>max(0, len(s) - k + 1)\<close> is 3.
\<close>

theorem kmer_counts_total_counterexample:
  "sum_list (map snd (kmer_counts (str_of ''A'') (- 1))) \<noteq> max 0 (int (length (str_of ''A'')) - (- 1) + 1)"
  by (simp add: kmer_counts_def kmer_step_def py_range_def py_slice_def str_of_def upt_rec)

text \<open>
  Claim C9. When \<open>k\<close> is greater than the length of the sequence, the table is empty.
\<close>

theorem kmer_counts_too_long:
  assumes "int (length s) < k"
  shows "kmer_counts s k = []"
  using assms by (simp add: kmer_counts_def py_range_def)

theorem kmer_counts_too_long_witness:
  "int (length (str_of ''ACG'')) < 4 \<and> kmer_counts (str_of ''ACG'') 4 = []"
  using kmer_counts_too_long [of "str_of ''ACG''" 4] by (simp add: str_of_def)

text \<open>
  Claim C10. For a negative \<open>k\<close> the table is empty: the loop runs \<open>len(s) - k + 1\<close>
  times, but every slice has a length of at least 0, which is never \<open>k\<close>, so no step
  changes the table.
\<close>

theorem kmer_counts_negative:
  assumes "k < 0"
  shows "kmer_counts s k = [] \<and>
         length (py_range (int (length s) - k + 1)) = length s + nat (- k) + 1 \<and>
         (\<forall>i counts. 0 \<le> int (length (py_slice s i (i + k))) \<and> kmer_step s k i counts = counts)"
proof -
  have "kmer_counts s k = []"
    using assms by (simp add: kmer_counts_scan scanned_kmers_neg count_all_def)
  moreover have "length (py_range (int (length s) - k + 1)) = length s + nat (- k) + 1"
    using assms by (simp add: py_range_def)
  moreover have "kmer_step s k i counts = counts" for i counts
    using assms by (simp add: kmer_step_def Let_def)
  ultimately show ?thesis by simp
qed

theorem kmer_counts_negative_witness:
  "(- 1 :: int) < 0 \<and> kmer_counts (str_of ''ACG'') (- 1) = [] \<and>
   length (py_range (int (length (str_of ''ACG'')) - (- 1) + 1)) = 5"
  using kmer_counts_negative [of "- 1" "str_of ''ACG''"] by (simp add: str_of_def)

section \<open>The normalizer keeps the four bases only\<close>

lemma clean_seq_Cons: "clean_seq U (c # s) = filter is_base (upper_char U c) @ clean_seq U s"
  by (simp add: clean_seq_def py_upper_def)

lemma clean_ascii_char:
  assumes "c < 128"
  shows "filter is_base (upper_char U c) =
     (if c \<in> set (str_of ''ACGTacgt'') then [if 97 \<le> c then c - 32 else c] else [])"
proof -
  have "set (str_of ''ACGTacgt'') = {65, 67, 71, 84, 97, 99, 103, 116}"
    by (simp add: str_of_def)
  with assms show ?thesis
    by (simp add: upper_char_def is_base_iff) linarith
qed

lemma clean_seq_ascii:
  assumes "\<forall>c \<in> set s. c < 128"
  shows "clean_seq U s =
     map (\<lambda>c. if 97 \<le> c then c - 32 else c) (filter (\<lambda>c. c \<in> set (str_of ''ACGTacgt'')) s)"
  using assms
proof (induction s)
  case Nil
  show ?case by (simp add: clean_seq_def py_upper_def)
next
  case (Cons c s)
  then show ?case
    by (simp only: clean_seq_Cons) (simp add: clean_ascii_char)
qed

lemma base_letters: "set (str_of ''ACGTacgt'') = {65, 67, 71, 84, 97, 99, 103, 116}"
  by (simp add: str_of_def)

lemma clean_char_empty:
  "filter is_base (upper_char U c) = [] \<longleftrightarrow>
     c \<notin> set (str_of ''ACGTacgt'') \<and>
     (128 \<le> c \<longrightarrow> (\<forall>d \<in> set (U c). d \<notin> set (str_of ''ACGT'')))"
proof (cases "c < 128")
  case True
  then show ?thesis
    by (simp add: clean_ascii_char)
next
  case False
  then have "upper_char U c = U c" and "c \<notin> set (str_of ''ACGTacgt'')"
    by (simp_all add: upper_char_def base_letters)
  with False show ?thesis
    by (simp add: filter_empty_conv is_base_def)
qed

lemma clean_seq_empty_iff:
  "clean_seq U s = [] \<longleftrightarrow> (\<forall>c \<in> set s. filter is_base (upper_char U c) = [])"
proof (induction s)
  case Nil
  show ?case by (simp add: clean_seq_def py_upper_def)
next
  case (Cons c s)
  then show ?case
    by (simp only: clean_seq_Cons append_is_Nil_conv) simp
qed

lemma special_upper_base:
  assumes "128 \<le> c"
  shows "(\<forall>d \<in> set (special_upper c). d \<notin> set (str_of ''ACGT'')) \<longleftrightarrow>
         c \<notin> {7831, 7834, 64261, 64262}"
  using assms by (auto simp add: special_upper_def str_of_def)

lemma special_letters_large: "c \<in> {7831, 7834, 64261, 64262} \<Longrightarrow> (128::nat) \<le> c"
  by auto

text \<open>
  Claim C6, as amended. For every input string, every character of the output of
  \<open>clean_seq\<close> is one of A, C, G, T. The function is total and returns the empty string
  for the empty input. It returns the empty string exactly for the inputs that hold no
  letter \<open>ACGTacgt\<close> and no character beyond ASCII whose upper-case form holds one of
  the four letters; with the interpreter's table these are the four characters U+1E97,
  U+1E9A, U+FB05 and U+FB06. On ASCII input it keeps exactly the characters
  \<open>ACGTacgt\<close>, in their order, upper-cased.
\<close>

theorem clean_seq_only_bases:
  "(\<forall>c \<in> set (clean_seq U s). c \<in> set (str_of ''ACGT'')) \<and>
   clean_seq U [] = [] \<and>
   (clean_seq U s = [] \<longleftrightarrow>
      (\<forall>c \<in> set s. c \<notin> set (str_of ''ACGTacgt'') \<and>
         (128 \<le> c \<longrightarrow> (\<forall>d \<in> set (U c). d \<notin> set (str_of ''ACGT''))))) \<and>
   (clean_seq special_upper s = [] \<longleftrightarrow>
      (\<forall>c \<in> set s. c \<notin> set (str_of ''ACGTacgt'') \<and> c \<notin> {7831, 7834, 64261, 64262})) \<and>
   ((\<forall>c \<in> set s. c < 128) \<longrightarrow>
      clean_seq U s =
        map (\<lambda>c. if 97 \<le> c then c - 32 else c) (filter (\<lambda>c. c \<in> set (str_of ''ACGTacgt'')) s))"
proof -
  have only: "\<forall>c \<in> set (clean_seq U s). c \<in> set (str_of ''ACGT'')"
    using set_clean_seq [of _ U s] by (simp add: is_base_def)
  have nil: "clean_seq U [] = []"
    by (simp add: clean_seq_def py_upper_def)
  have empty: "clean_seq V s = [] \<longleftrightarrow>
      (\<forall>c \<in> set s. c \<notin> set (str_of ''ACGTacgt'') \<and>
         (128 \<le> c \<longrightarrow> (\<forall>d \<in> set (V c). d \<notin> set (str_of ''ACGT''))))" for V
    by (simp only: clean_seq_empty_iff clean_char_empty)
  have "(128 \<le> c \<longrightarrow> (\<forall>d \<in> set (special_upper c). d \<notin> set (str_of ''ACGT''))) \<longleftrightarrow>
      c \<notin> {7831, 7834, 64261, 64262}" for c
    using special_upper_base [of c] special_letters_large [of c] by blast
  then have special: "clean_seq special_upper s = [] \<longleftrightarrow>
      (\<forall>c \<in> set s. c \<notin> set (str_of ''ACGTacgt'') \<and> c \<notin> {7831, 7834, 64261, 64262})"
    by (simp only: empty)
  have ascii: "(\<forall>c \<in> set s. c < 128) \<longrightarrow>
      clean_seq U s =
        map (\<lambda>c. if 97 \<le> c then c - 32 else c) (filter (\<lambda>c. c \<in> set (str_of ''ACGTacgt'')) s)"
    using clean_seq_ascii [of s U] by blast
  from only nil empty [of U] special ascii show ?thesis
    by (intro conjI)
qed

theorem clean_seq_only_bases_witness:
  "clean_seq special_upper (str_of ''123xyz'') = [] \<and>
   clean_seq special_upper (str_of ''acgtACGT'') = str_of ''ACGTACGT'' \<and>
   clean_seq special_upper (str_of ''>Ab c\<newline>gNt-'') = str_of ''ACGT'' \<and>
   list_all (\<lambda>c. c \<in> set (str_of ''ACGT'')) (clean_seq special_upper (str_of ''>Ab c\<newline>gNt-'')) \<and>
   clean_seq special_upper [64262, 97, 233] = str_of ''TA'' \<and>
   clean_seq special_upper [233, 8364] = []"
  using clean_seq_only_bases [of special_upper "str_of ''123xyz''"]
    clean_seq_only_bases [of special_upper "[64262, 97, 233]"]
    clean_seq_only_bases [of special_upper "[233, 8364]"]
    clean_seq_only_bases [of special_upper "str_of ''acgtACGT''"]
    clean_seq_only_bases [of special_upper "str_of ''>Ab c\<newline>gNt-''"]
  by (simp add: clean_seq_def py_upper_def upper_char_def is_base_def str_of_def special_upper_def)

text \<open>
  Claim C6 as stated fails on an input that holds no A, C, G or T in either case: the
  ligature U+FB06 upper-cases to \<open>ST\<close>, so the one-character input gives \<open>T\<close> and not
  the empty string.
\<close>

theorem clean_seq_fully_invalid_counterexample:
  "(64262::nat) \<notin> set (str_of ''ACGTacgt'') \<and>
   upper_char special_upper 64262 = str_of ''ST'' \<and>
   clean_seq special_upper [64262] = str_of ''T'' \<and>
   clean_seq special_upper [64262] \<noteq> []"
  by (simp add: clean_seq_def py_upper_def upper_char_def is_base_def str_of_def special_upper_def)

text \<open>
  Claim C7. The normalizer is idempotent: cleaning a cleaned string changes nothing.
\<close>

theorem clean_seq_idempotent: "clean_seq U (clean_seq U s) = clean_seq U s"
  by (rule clean_seq_bases) (simp add: set_clean_seq)

theorem clean_seq_idempotent_witness:
  "clean_seq (\<lambda>c. [c]) (str_of ''ac-gtN'') = str_of ''ACGT'' \<and>
   clean_seq (\<lambda>c. [c]) (str_of ''ACGT'') = str_of ''ACGT''"
  using clean_seq_idempotent [of "\<lambda>c. [c]" "str_of ''ac-gtN''"]
  by (simp add: clean_seq_def py_upper_def upper_char_def is_base_def str_of_def)

section \<open>The input reader\<close>

lemma stripped_lines_filter:
  "stripped_lines ls = filter (\<lambda>l. l \<noteq> []) (map py_strip ls)"
  by (induction ls) simp_all

lemma read_sequence_reader_spec:
  assumes "fs path = Some text"
  shows "read_sequence_from_file fs path = reader_spec py_strip (file_lines text)"
proof -
  define ls where "ls = stripped_lines (file_lines text)"
  have code: "read_sequence_from_file fs path =
      (if ls \<noteq> [] \<and> startswith (hd ls) (str_of ''>'')
       then join_lines (filter (\<lambda>line. \<not> startswith line (str_of ''>'')) ls)
       else join_lines ls)"
    using assms by (simp add: read_sequence_from_file_def Let_def ls_def)
  have "filter (\<lambda>l. l \<noteq> []) (map py_strip (file_lines text)) = ls"
    by (simp only: ls_def stripped_lines_filter)
  then have spec: "reader_spec py_strip (file_lines text) =
      (case ls of
         [] \<Rightarrow> []
       | first # _ \<Rightarrow>
           if startswith first (str_of ''>'')
           then concat (filter (\<lambda>l. \<not> startswith l (str_of ''>'')) ls)
           else concat ls)"
    by (simp only: reader_spec_def Let_def)
  show ?thesis
    unfolding code spec by (cases ls) (simp_all add: join_lines_def)
qed

lemmas reader_eval = read_sequence_from_file_def file_lines_def str_of_def py_strip_def
  py_lstrip_def py_rstrip_def py_isspace_def startswith_def join_lines_def reader_spec_def

text \<open>
  Claim C4, as amended. \<open>read_sequence_from_file\<close> strips the whitespace at both ends
  of every line (\<open>line.strip()\<close>) and drops the lines that are then empty; when the
  first retained line starts with \<open>>\<close> it discards every retained line that starts with
  \<open>>\<close> and concatenates the rest, otherwise it concatenates all retained lines. A file
  that cannot be read gives the empty string. The FASTA input \<open>>header\nACG\nTT\n\<close>
  gives the cleaned sequence \<open>ACGTT\<close>.
\<close>

theorem read_sequence_strips_both_sides:
  "(fs path = None \<longrightarrow> read_sequence_from_file fs path = []) \<and>
   (fs path = Some text \<longrightarrow>
      read_sequence_from_file fs path = reader_spec py_strip (file_lines text)) \<and>
   (fs path = Some (str_of ''>header\<newline>ACG\<newline>TT\<newline>'') \<longrightarrow>
      clean_seq U (read_sequence_from_file fs path) = str_of ''ACGTT'')"
proof -
  have "clean_seq U (read_sequence_from_file fs path) = str_of ''ACGTT''"
    if "fs path = Some (str_of ''>header\<newline>ACG\<newline>TT\<newline>'')"
  proof -
    have "read_sequence_from_file fs path = str_of ''ACGTT''"
      using that by (simp add: reader_eval)
    then show ?thesis
      by (simp add: clean_seq_def py_upper_def upper_char_def is_base_def str_of_def)
  qed
  then show ?thesis
    by (simp add: read_sequence_reader_spec) (simp add: read_sequence_from_file_def)
qed

theorem read_sequence_strips_both_sides_witness:
  "read_sequence_from_file (map_of [(''in.fa'', str_of '' >h\<newline>  ACG \<newline>\<newline>TT'')]) ''in.fa'' = str_of ''ACGTT'' \<and>
   reader_spec py_strip (file_lines (str_of '' >h\<newline>  ACG \<newline>\<newline>TT'')) = str_of ''ACGTT'' \<and>
   read_sequence_from_file (map_of [(''in.fa'', str_of '' >h\<newline>  ACG \<newline>\<newline>TT'')]) ''other'' = [] \<and>
   clean_seq (\<lambda>c. [c]) (read_sequence_from_file (map_of [(''in.fa'', str_of ''>header\<newline>ACG\<newline>TT\<newline>'')]) ''in.fa'') = str_of ''ACGTT''"
  using read_sequence_strips_both_sides [of "map_of [(''in.fa'', str_of '' >h\<newline>  ACG \<newline>\<newline>TT'')]" "''in.fa''" "str_of '' >h\<newline>  ACG \<newline>\<newline>TT''"]
    read_sequence_strips_both_sides [of "map_of [(''in.fa'', str_of '' >h\<newline>  ACG \<newline>\<newline>TT'')]" "''other''"]
    read_sequence_strips_both_sides [of "map_of [(''in.fa'', str_of ''>header\<newline>ACG\<newline>TT\<newline>'')]" "''in.fa''" _ "\<lambda>c. [c]"]
  by (simp add: reader_eval)

text \<open>
  Claim C4 as stated, with only the trailing whitespace stripped, fails on a file whose
  header line is indented: the source strips the leading blank, sees a FASTA header and
  returns \<open>ACG\<close>; with trailing stripping only, the first retained line does not start
  with \<open>>\<close> and the header text stays in the result.
\<close>

theorem read_sequence_trailing_only_counterexample:
  "read_sequence_from_file (map_of [(''in.fa'', str_of '' >h\<newline>ACG\<newline>'')]) ''in.fa'' = str_of ''ACG'' \<and>
   reader_spec py_rstrip (file_lines (str_of '' >h\<newline>ACG\<newline>'')) = str_of '' >hACG'' \<and>
   read_sequence_from_file (map_of [(''in.fa'', str_of '' >h\<newline>ACG\<newline>'')]) ''in.fa''
     \<noteq> reader_spec py_rstrip (file_lines (str_of '' >h\<newline>ACG\<newline>''))"
  by (simp add: reader_eval)

section \<open>The table of \<open>kmer_counts\<close> and the most common entries\<close>

lemma map_fst_counter_incr:
  "map fst (counter_incr t w) = (if w \<in> set (map fst t) then map fst t else map fst t @ [w])"
  by (induction t w rule: counter_incr.induct) auto

lemma map_of_counter_incr:
  "map_of (counter_incr t w) = (map_of t)(w \<mapsto> (case map_of t w of None \<Rightarrow> 1 | Some v \<Rightarrow> v + 1))"
  by (induction t w rule: counter_incr.induct) (auto simp add: fun_eq_iff)

lemma count_all_snoc: "count_all (ws @ [w]) t = counter_incr (count_all ws t) w"
  by (simp add: count_all_def)

lemma keys_count_all: "map fst (count_all ws []) = rev (remdups (rev ws))"
proof (induction ws rule: rev_induct)
  case Nil
  show ?case by (simp add: count_all_def)
next
  case (snoc w ws)
  have "set (map fst (count_all ws [])) = set ws"
    by (simp only: snoc.IH set_rev set_remdups)
  then show ?case
    by (simp add: count_all_snoc map_fst_counter_incr snoc.IH del: set_map)
qed

lemma distinct_keys_count_all: "distinct (map fst (count_all ws []))"
  by (simp add: keys_count_all)

lemma set_keys_count_all: "set (map fst (count_all ws [])) = set ws"
  by (simp only: keys_count_all set_rev set_remdups)

lemma map_of_count_all:
  "map_of (count_all ws []) = (\<lambda>w. if w \<in> set ws then Some (int (count_list ws w)) else None)"
proof (induction ws rule: rev_induct)
  case Nil
  show ?case by (simp add: count_all_def)
next
  case (snoc x ws)
  show ?case
    by (simp add: count_all_snoc map_of_counter_incr snoc.IH fun_eq_iff)
qed

lemma entries_count_all:
  assumes "(w, c) \<in> set (count_all ws [])"
  shows "w \<in> set ws \<and> c = int (count_list ws w)"
proof -
  from assms have "map_of (count_all ws []) w = Some c"
    by (simp add: distinct_keys_count_all)
  then show ?thesis
    by (simp add: map_of_count_all split: if_splits)
qed

lemma first_seen_at_less: "w \<in> set ws \<Longrightarrow> first_seen_at ws w < length ws"
  by (induction ws) (auto simp add: first_seen_at_def)

lemma first_seen_at_snoc_old: "w \<in> set ws \<Longrightarrow> first_seen_at (ws @ [x]) w = first_seen_at ws w"
  by (simp add: first_seen_at_def)

lemma first_seen_at_snoc_new: "x \<notin> set ws \<Longrightarrow> first_seen_at (ws @ [x]) x = length ws"
  by (induction ws) (auto simp add: first_seen_at_def)

lemma first_seen_sorted:
  "sorted_wrt (<) (map (first_seen_at ws) (rev (remdups (rev ws))))"
proof (induction ws rule: rev_induct)
  case Nil
  show ?case by simp
next
  case (snoc x ws)
  let ?keys = "rev (remdups (rev ws))"
  let ?keys' = "rev (remdups (rev (ws @ [x])))"
  have old: "map (first_seen_at (ws @ [x])) ?keys = map (first_seen_at ws) ?keys"
    by (intro map_cong refl) (simp add: first_seen_at_snoc_old)
  have keys: "?keys' = (if x \<in> set ws then ?keys else ?keys @ [x])"
    by simp
  show ?case
  proof (cases "x \<in> set ws")
    case True
    have "map (first_seen_at (ws @ [x])) ?keys' = map (first_seen_at ws) ?keys"
      by (simp only: keys True if_True old)
    with snoc.IH show ?thesis
      by (simp only:)
  next
    case False
    have "map (first_seen_at (ws @ [x])) ?keys' = map (first_seen_at ws) ?keys @ [length ws]"
      by (simp only: keys False if_False map_append old list.map first_seen_at_snoc_new [OF False])
    moreover have "sorted_wrt (<) (map (first_seen_at ws) ?keys @ [length ws])"
      using snoc.IH by (simp add: sorted_wrt_append first_seen_at_less)
    ultimately show ?thesis
      by (simp only:)
  qed
qed

lemma kmer_counts_scan_order:
  "sorted_wrt (\<lambda>a b. first_seen_at (scanned_kmers s k) (fst a) < first_seen_at (scanned_kmers s k) (fst b))
     (kmer_counts s k)"
proof -
  have "sorted_wrt (<) (map (first_seen_at (scanned_kmers s k)) (map fst (kmer_counts s k)))"
    by (simp only: kmer_counts_scan keys_count_all first_seen_sorted)
  then show ?thesis
    by (simp add: sorted_wrt_map)
qed

lemma set_insert_desc: "set (insert_desc x ys) = insert x (set ys)"
  by (induction ys) auto

lemma set_sorted_desc: "set (sorted_desc t) = set t"
  by (induction t) (simp_all add: set_insert_desc)

lemma length_insert_desc: "length (insert_desc x ys) = Suc (length ys)"
  by (induction ys) auto

lemma length_sorted_desc: "length (sorted_desc t) = length t"
  by (induction t) (simp_all add: length_insert_desc)

lemma mset_insert_desc: "mset (insert_desc x ys) = add_mset x (mset ys)"
  by (induction ys) auto

lemma mset_sorted_desc: "mset (sorted_desc t) = mset t"
  by (induction t) (simp_all add: mset_insert_desc)

lemma insert_desc_ranked:
  assumes "sorted_wrt (ranks_before pos) ys" and "\<forall>y \<in> set ys. pos (fst x) < pos (fst y)"
  shows "sorted_wrt (ranks_before pos) (insert_desc x ys)"
  using assms
proof (induction ys)
  case Nil
  show ?case by simp
next
  case (Cons y ys)
  show ?case
  proof (cases "snd y \<le> snd x")
    case True
    have "ranks_before pos x z" if "z \<in> set (y # ys)" for z
    proof -
      from that Cons.prems(1) have "snd z \<le> snd y"
        by (auto simp add: ranks_before_def)
      with True that Cons.prems(2) show ?thesis
        by (auto simp add: ranks_before_def)
    qed
    with True Cons.prems(1) show ?thesis by simp
  next
    case False
    then have "ranks_before pos y x"
      by (simp add: ranks_before_def)
    with False Cons show ?thesis
      by (simp add: set_insert_desc)
  qed
qed

lemma sorted_desc_ranked:
  assumes "sorted_wrt (\<lambda>a b. pos (fst a) < pos (fst b)) t"
  shows "sorted_wrt (ranks_before pos) (sorted_desc t)"
  using assms by (induction t) (simp_all add: insert_desc_ranked set_sorted_desc)

lemma summary_top_most_common: "summary_top s k n = most_common n (kmer_counts s k)"
  by (simp add: summary_top_def most_common_def Let_def)

lemma kmer_counts_entries:
  "distinct (map fst (kmer_counts s k)) \<and>
   set (map fst (kmer_counts s k)) = set (scanned_kmers s k) \<and>
   (\<forall>e \<in> set (kmer_counts s k). snd e = int (count_list (scanned_kmers s k) (fst e)))"
proof -
  have "snd e = int (count_list (scanned_kmers s k) (fst e))" if "e \<in> set (kmer_counts s k)" for e
    using that entries_count_all [of "fst e" "snd e" "scanned_kmers s k"]
    by (simp add: kmer_counts_scan)
  then show ?thesis
    by (simp only: kmer_counts_scan distinct_keys_count_all set_keys_count_all) simp
qed

lemma most_common_ranked:
  assumes "sorted_wrt (\<lambda>a b. pos (fst a) < pos (fst b)) t"
  shows "length (most_common n t) = min (nat n) (length t) \<and>
         mset (most_common n t) \<subseteq># mset t \<and>
         sorted_wrt (ranks_before pos) (most_common n t) \<and>
         (\<forall>e \<in> set t. e \<notin> set (most_common n t) \<longrightarrow>
            (\<forall>e' \<in> set (most_common n t). ranks_before pos e' e))"
proof -
  let ?l = "sorted_desc t"
  have split: "take (nat n) ?l @ drop (nat n) ?l = ?l"
    by simp
  have ranked: "sorted_wrt (ranks_before pos) (take (nat n) ?l @ drop (nat n) ?l)"
    using sorted_desc_ranked [OF assms] by (simp only: split)
  have len: "length (most_common n t) = min (nat n) (length t)"
    by (simp add: most_common_def length_sorted_desc min.commute)
  have "mset (take (nat n) ?l) \<subseteq># mset (take (nat n) ?l @ drop (nat n) ?l)"
    by (simp only: mset_append mset_subset_eq_add_left)
  then have sub: "mset (most_common n t) \<subseteq># mset t"
    by (simp only: split mset_sorted_desc most_common_def)
  have srt: "sorted_wrt (ranks_before pos) (most_common n t)"
    using ranked by (simp only: sorted_wrt_append most_common_def)
  have rest: "ranks_before pos e' e"
    if "e \<in> set t" and "e \<notin> set (most_common n t)" and "e' \<in> set (most_common n t)" for e e'
  proof -
    have "set (take (nat n) ?l) \<union> set (drop (nat n) ?l) = set t"
      by (simp only: set_append [symmetric] split set_sorted_desc)
    with that(1,2) have "e \<in> set (drop (nat n) ?l)"
      by (auto simp add: most_common_def)
    with that(3) ranked show ?thesis
      by (simp only: sorted_wrt_append most_common_def)
  qed
  from len sub srt rest show ?thesis by blast
qed

text \<open>
  Claim C5. The table of \<open>kmer_counts\<close> has one entry for every k-mer of the scan, with
  the number of its occurrences. The list printed by \<open>summary\<close> is \<open>most_common(n)\<close> of
  that table: it has \<open>n\<close> entries, or all of them when the table has fewer; it is
  ordered by count, highest first, and among equal counts by the first appearance of
  the k-mer in the scan; and every entry left out ranks after every entry listed, in
  that same order. For \<open>ACGTACGT\<close> and \<open>k = 3\<close> the table is ACG:2, CGT:2, GTA:1, TAC:1
  and the top 3 are ACG:2, CGT:2, GTA:1.
\<close>

theorem top_n_by_count:
  "distinct (map fst (kmer_counts s k)) \<and>
   set (map fst (kmer_counts s k)) = set (scanned_kmers s k) \<and>
   (\<forall>e \<in> set (kmer_counts s k). snd e = int (count_list (scanned_kmers s k) (fst e))) \<and>
   summary_top s k n = most_common n (kmer_counts s k) \<and>
   length (most_common n (kmer_counts s k)) = min (nat n) (length (kmer_counts s k)) \<and>
   mset (most_common n (kmer_counts s k)) \<subseteq># mset (kmer_counts s k) \<and>
   sorted_wrt (ranks_before (first_seen_at (scanned_kmers s k))) (most_common n (kmer_counts s k)) \<and>
   (\<forall>e \<in> set (kmer_counts s k). e \<notin> set (most_common n (kmer_counts s k)) \<longrightarrow>
      (\<forall>e' \<in> set (most_common n (kmer_counts s k)).
         ranks_before (first_seen_at (scanned_kmers s k)) e' e)) \<and>
   kmer_counts (str_of ''ACGTACGT'') 3 =
     [(str_of ''ACG'', 2), (str_of ''CGT'', 2), (str_of ''GTA'', 1), (str_of ''TAC'', 1)] \<and>
   summary_top (str_of ''ACGTACGT'') 3 3 =
     [(str_of ''ACG'', 2), (str_of ''CGT'', 2), (str_of ''GTA'', 1)]"
proof -
  have table: "kmer_counts (str_of ''ACGTACGT'') 3 =
      [(str_of ''ACG'', 2), (str_of ''CGT'', 2), (str_of ''GTA'', 1), (str_of ''TAC'', 1)]"
    by (simp add: kmer_counts_def kmer_step_def py_range_def py_slice_def str_of_def upt_rec)
  have top: "summary_top (str_of ''ACGTACGT'') 3 3 =
      [(str_of ''ACG'', 2), (str_of ''CGT'', 2), (str_of ''GTA'', 1)]"
    by (simp add: summary_top_most_common table most_common_def)
  from kmer_counts_entries [of s k] summary_top_most_common [of s k n]
    most_common_ranked [OF kmer_counts_scan_order [of s k], of n] table top
  show ?thesis by blast
qed

theorem top_n_by_count_witness:
  "most_common 2 (kmer_counts (str_of ''ACGTACGT'') 3) = [(str_of ''ACG'', 2), (str_of ''CGT'', 2)] \<and>
   first_seen_at (scanned_kmers (str_of ''ACGTACGT'') 3) (str_of ''ACG'') = 0 \<and>
   first_seen_at (scanned_kmers (str_of ''ACGTACGT'') 3) (str_of ''CGT'') = 1 \<and>
   summary_top (str_of ''ACGTACGT'') 3 5 =
     [(str_of ''ACG'', 2), (str_of ''CGT'', 2), (str_of ''GTA'', 1), (str_of ''TAC'', 1)]"
proof -
  have table: "kmer_counts (str_of ''ACGTACGT'') 3 =
      [(str_of ''ACG'', 2), (str_of ''CGT'', 2), (str_of ''GTA'', 1), (str_of ''TAC'', 1)]"
    using top_n_by_count [of "str_of ''ACGTACGT''" 3 2] by blast
  have "scanned_kmers (str_of ''ACGTACGT'') 3 =
      map str_of [''ACG'', ''CGT'', ''GTA'', ''TAC'', ''ACG'', ''CGT'']"
    by (simp add: scanned_kmers_def guarded_kmer_def py_range_def py_slice_def str_of_def upt_rec)
  then show ?thesis
    by (simp add: table summary_top_most_common most_common_def first_seen_at_def) (simp add: str_of_def)
qed

end
